theory Spec2Isabelle
  imports Complex_Main "HOL-Library.AList"
begin

section \<open>Python string operations used by the verifier\<close>

text \<open>
  A Python \<open>str\<close> is a sequence of code points. The embedding uses \<^typ>\<open>string\<close>, one
  \<^typ>\<open>char\<close> per code point, which covers the code points below 256. The predicates
  below are Python's own on that range: \<open>str.isspace\<close> holds for the ASCII controls
  9 to 13 and 28 to 31, for the blank, and for the code points 133 and 160;
  \<open>str.isdigit\<close> holds for the ten ASCII digits and for the superscripts
  178, 179 and 185.
\<close>

definition isspace :: "char \<Rightarrow> bool" where
  "isspace c = (of_char c \<in> {9, 10, 11, 12, 13, 28, 29, 30, 31, 32, 133, 160 :: nat})"

definition isdigit_char :: "char \<Rightarrow> bool" where
  "isdigit_char c =
     ((48 \<le> (of_char c :: nat) \<and> (of_char c :: nat) \<le> 57) \<or> of_char c \<in> {178, 179, 185 :: nat})"

text \<open>\<open>s.strip()\<close>: white space removed from both ends.\<close>

definition str_strip :: "string \<Rightarrow> string" where
  "str_strip s = rev (dropWhile isspace (rev (dropWhile isspace s)))"

text \<open>\<open>s.isdigit()\<close>: at least one character, and every character a digit.\<close>

definition str_isdigit :: "string \<Rightarrow> bool" where
  "str_isdigit s = (s \<noteq> [] \<and> list_all isdigit_char s)"

text \<open>\<open>s.count(d)\<close> for a one-character \<open>d\<close>.\<close>

definition str_count :: "string \<Rightarrow> char \<Rightarrow> nat" where
  "str_count s d = length (filter (\<lambda>c. c = d) s)"

text \<open>
  \<open>s.split(d)\<close> for a one-character separator: the result is never empty, and
  \<open>k\<close> separators give \<open>k + 1\<close> pieces (empty pieces are kept).
\<close>

fun str_split :: "string \<Rightarrow> char \<Rightarrow> string list" where
  "str_split [] d = [[]]"
| "str_split (c # cs) d =
     (if c = d then [] # str_split cs d
      else (case str_split cs d of
              [] \<Rightarrow> [[c]]
            | w # ws \<Rightarrow> (c # w) # ws))"

text \<open>
  \<open>max(counts, key=counts.get)\<close> over a dictionary built from a list of keys: the keys are
  visited in insertion order and the first one with the largest count is returned.
\<close>

primrec max_key_from :: "('a \<Rightarrow> nat) \<Rightarrow> 'a \<Rightarrow> 'a list \<Rightarrow> 'a" where
  "max_key_from key best [] = best"
| "max_key_from key best (x # xs) =
     max_key_from key (if key best < key x then x else best) xs"

definition potential_delimiters :: "char list" where
  "potential_delimiters = [CHR '','', CHR '';'', CHR 0x09, CHR ''|'']"

definition max_delimiter :: "(char \<Rightarrow> nat) \<Rightarrow> char" where
  "max_delimiter counts = max_key_from counts (hd potential_delimiters) (tl potential_delimiters)"

text \<open>
  \<open>dict(pairs)\<close>: a later pair with a key already present replaces the value and keeps the
  key's position, so the result has one entry per distinct key.
\<close>

definition py_dict :: "('k \<times> 'v) list \<Rightarrow> ('k \<times> 'v) list" where
  "py_dict kvs = fold (\<lambda>(k, v). AList.update k v) kvs []"

section \<open>The data model\<close>

datatype error = StopIteration | ValueError | TypeError | CsvError | UnicodeDecodeError

text \<open>
  What iterating a \<open>csv.reader\<close> over the file does: the records it yields, in order, and
  then how the iteration ends, by exhaustion (\<open>None\<close>) or by the exception that the next
  read raises, for example \<open>_csv.Error\<close> on a field longer than the field size limit, or
  \<open>UnicodeDecodeError\<close> on bytes that the detected encoding cannot decode. A blank line
  of the file is the record \<open>[]\<close>.
\<close>

datatype csv_reader = Reader (yielded: "string list list") (failure: "error option")

record file_info =
  file_path :: string
  file_size_bytes :: nat
  encoding :: "string option"

record verification_report = file_info +
  delimiter :: char
  header_count :: nat
  headers :: "string list"
  row_count :: nat
  consistent_columns :: bool
  is_single_column_csv :: bool
  empty_cells :: nat
  column_data_types :: "(string \<times> string) list"

section \<open>\<open>verify_csv\<close>\<close>

text \<open>
  Lines 59 to 73 of \<open>csv_verifier.py\<close>: when the requested delimiter does not occur in the
  sample (the first 4096 characters of the file), the candidate with the largest count in
  the sample replaces it, unless no candidate occurs at all.
\<close>

definition resolve_delimiter :: "string \<Rightarrow> char \<Rightarrow> char" where
  "resolve_delimiter sample delim =
     (if delim \<notin> set sample then
        (let delimiter_counts = str_count sample;
             best_delimiter = max_delimiter delimiter_counts
         in if delimiter_counts best_delimiter > 0 then best_delimiter else delim)
      else delim)"

text \<open>
  Lines 81 to 83 and 89 to 92: a header or a row of exactly one cell that contains the
  delimiter is split again on it.
\<close>

definition resplit :: "char \<Rightarrow> string list \<Rightarrow> string list" where
  "resplit delim row =
     (if length row = 1 \<and> delim \<in> set (row ! 0) then str_split (row ! 0) delim
      else row)"

text \<open>
  Lines 113 to 121, one pass of the loop over the header indices. The source compares the
  count with the double \<open>0.8 * len(column_values)\<close>; for lengths below \<open>2 ^ 53\<close> that
  product, rounded, is on the same side of every integer as the exact one, so the
  comparison is the exact one over the rationals.
\<close>

definition column_values :: "string list list \<Rightarrow> nat \<Rightarrow> string list" where
  "column_values rows i = map (\<lambda>row. row ! i) (filter (\<lambda>row. i < length row) rows)"

definition numeric_value :: "string \<Rightarrow> bool" where
  "numeric_value val = str_isdigit (remove1 CHR ''.'' (str_strip val))"

definition column_type :: "string list list \<Rightarrow> nat \<Rightarrow> string" where
  "column_type rows i =
     (let vals = column_values rows i;
          numeric_count = length (filter numeric_value vals)
      in if rat_of_nat numeric_count > (8 / 10) * rat_of_nat (length vals)
         then ''numeric'' else ''string'')"

text \<open>
  Lines 76 to 138. The embedding starts where \<open>csv.reader\<close> has been created:
  \<open>delim\<close> is the delimiter in effect (the value of \<^const>\<open>resolve_delimiter\<close>) and
  \<open>reader\<close> is what iterating the reader does. \<open>next(reader)\<close> takes the first record as
  the header; on a reader that yields nothing it raises the reader's exception, or
  \<open>StopIteration\<close> when the reader is exhausted. The loop \<open>for row in reader\<close> collects
  the remaining records; an exception of the reader ends it and propagates, and no
  report is returned.
\<close>

definition verify_csv ::
  "string \<Rightarrow> nat \<Rightarrow> string option \<Rightarrow> char \<Rightarrow> csv_reader \<Rightarrow> error + verification_report"
where
  "verify_csv path fsize enc delim reader =
     (case yielded reader of
        [] \<Rightarrow> (case failure reader of None \<Rightarrow> Inl StopIteration | Some e \<Rightarrow> Inl e)
      | first # rest \<Rightarrow>
          (case failure reader of
             Some e \<Rightarrow> Inl e
           | None \<Rightarrow>
               (let hdrs = resplit delim first;
                    rows = map (resplit delim) rest;
                    column_counts = map length rows;
                    single = (length hdrs = 1 \<and> hdrs ! 0 = ''Content'');
                    consistent =
                      (if single then list_all (\<lambda>row. length row \<ge> 1) rows
                       else card (set column_counts) = 1);
                    empties = length (filter (\<lambda>cell. str_strip cell = []) (concat rows));
                    types = map (column_type rows) [0..<length hdrs]
                in Inr \<lparr> file_path = path, file_size_bytes = fsize, encoding = enc,
                         delimiter = delim, header_count = length hdrs, headers = hdrs,
                         row_count = length rows, consistent_columns = consistent,
                         is_single_column_csv = single, empty_cells = empties,
                         column_data_types = py_dict (zip hdrs types) \<rparr>)))"

section \<open>\<open>verify_txt\<close>\<close>

record line_classification = file_info +
  line_count :: nat
  empty_lines :: nat
  avg_line_length :: rat
  consistent_line_length :: bool
  potential_csv :: bool
  potential_delimiter :: "char option"
  csv_confidence :: rat
  is_large_file :: bool

text \<open>
  Lines 235 to 264: a file above 10 MiB is sampled, its first 100 lines and, when it has
  more than 200 lines, 100 lines from its middle; any other file is read whole.
\<close>

definition sample_lines :: "string list \<Rightarrow> string list" where
  "sample_lines all_lines =
     (let first_lines = take 100 all_lines;
          n = length all_lines;
          middle_lines =
            (if n > 200 then
               (let middle_start = max 100 (n div 2 - 50)
                in take 100 (drop middle_start all_lines))
             else [])
      in first_lines @ middle_lines)"

definition large_file :: "nat \<Rightarrow> bool" where
  "large_file fsize = (fsize > 10 * 1024 * 1024)"

definition read_lines :: "nat \<Rightarrow> string list \<Rightarrow> string list" where
  "read_lines fsize all_lines = (if large_file fsize then sample_lines all_lines else all_lines)"

text \<open>
  Lines 287 and 288: the lines after the first that are not blank and whose count of the
  header delimiter is within 2 of the expected count.
\<close>

definition matching_lines :: "string list \<Rightarrow> char \<Rightarrow> nat \<Rightarrow> nat" where
  "matching_lines lines d expected_count =
     length (filter (\<lambda>line. str_strip line \<noteq> [] \<and>
                             \<bar>int (str_count line d) - int expected_count\<bar> \<le> 2)
                    (drop 1 lines))"

text \<open>
  Lines 275 to 293. The result is the triple of \<open>is_potential_csv\<close>, \<open>best_delimiter\<close>
  and \<open>csv_confidence\<close> after the block. The threshold \<open>0.7 * (len(lines) - 1)\<close> and the
  quotient are doubles in the source: below \<open>2 ^ 53\<close> lines the rounded product is on the
  same side of every integer as the exact one, and the confidence is the exact quotient,
  rounded.
\<close>

definition csv_detection :: "string list \<Rightarrow> char \<Rightarrow> bool \<times> char \<times> rat" where
  "csv_detection lines best_delimiter =
     (if lines \<noteq> [] \<and> list_ex (\<lambda>d. d \<in> set (lines ! 0)) potential_delimiters then
        (let header_delimiters = str_count (lines ! 0);
             best_header_delimiter = max_delimiter header_delimiters
         in if header_delimiters best_header_delimiter > 0 then
              (let expected_count = str_count (lines ! 0) best_header_delimiter;
                   matching = matching_lines lines best_header_delimiter expected_count
               in if rat_of_nat matching \<ge> (7 / 10) * rat_of_nat (length lines - 1) then
                    (True, best_header_delimiter,
                     rat_of_nat matching / rat_of_nat (max 1 (length lines - 1)))
                  else (False, best_delimiter, 0))
            else (False, best_delimiter, 0))
      else (False, best_delimiter, 0))"

text \<open>
  Lines 223 to 317, for an existing file of \<open>fsize\<close> bytes whose decoded text is the
  lines \<open>all_lines\<close>. On a file with no line, \<open>max(line_lengths)\<close> raises \<open>ValueError\<close>.
\<close>

definition verify_txt ::
  "string \<Rightarrow> nat \<Rightarrow> string option \<Rightarrow> string list \<Rightarrow> error + line_classification"
where
  "verify_txt path fsize enc all_lines =
     (let lines = read_lines fsize all_lines;
          empties = length (filter (\<lambda>line. str_strip line = []) lines);
          delimiter_counts = (\<lambda>d. sum_list (map (\<lambda>line. str_count line d) lines));
          (is_potential_csv, best_delimiter, confidence) =
            csv_detection lines (max_delimiter delimiter_counts);
          avg = rat_of_nat (sum_list (map length lines)) / rat_of_nat (max 1 (length lines));
          line_lengths = map length lines
      in if line_lengths = [] then Inl ValueError
         else Inr \<lparr> file_path = path, file_size_bytes = fsize, encoding = enc,
                    line_count = length all_lines, empty_lines = empties,
                    avg_line_length = avg,
                    consistent_line_length =
                      (int (Max (set line_lengths)) - int (Min (set line_lengths)) < 10),
                    potential_csv = is_potential_csv,
                    potential_delimiter = (if is_potential_csv then Some best_delimiter else None),
                    csv_confidence = (if is_potential_csv then confidence else 0),
                    is_large_file = large_file fsize \<rparr>)"

section \<open>\<open>transform_file\<close>\<close>

text \<open>
  The \<open>delimiter\<close> argument is the text \<open>auto\<close> or one character. What the function
  writes is the sequence of rows handed to a \<open>csv.writer\<close> created with a delimiter, or
  plain text.
\<close>

datatype delimiter_arg = Auto | Delim char

datatype written = CsvFile char "string list list" | TextFile string

text \<open>Lines 461 to 468, one pass of the loop over the lines of the text file.\<close>

definition parse_line :: "char \<Rightarrow> string \<Rightarrow> string list list \<times> nat \<Rightarrow> string list list \<times> nat"
where
  "parse_line csv_delimiter line st =
     (case st of (csv_rows, max_columns) \<Rightarrow>
        if csv_delimiter \<in> set line then
          (let row = str_split (str_strip line) csv_delimiter
           in (csv_rows @ [row], max max_columns (length row)))
        else (csv_rows @ [[str_strip line]], max max_columns 1))"

text \<open>Lines 472 and 473: the loop that appends empty cells to one row.\<close>

function pad_row :: "nat \<Rightarrow> string list \<Rightarrow> string list" where
  "pad_row max_columns row =
     (if length row < max_columns then pad_row max_columns (row @ [[]]) else row)"
  by pat_completeness auto
termination
  by (relation "measure (\<lambda>(max_columns, row). max_columns - length row)") auto

declare pad_row.simps [simp del]

text \<open>
  The row that one pass of the loop appends for a line, whichever branch is taken; it
  serves to state what the loop computes.
\<close>

definition line_cells :: "char \<Rightarrow> string \<Rightarrow> string list" where
  "line_cells csv_delimiter line =
     (if csv_delimiter \<in> set line then str_split (str_strip line) csv_delimiter
      else [str_strip line])"

text \<open>Lines 458 to 473: the rows of the promoted table.\<close>

definition promote :: "char \<Rightarrow> string list \<Rightarrow> string list list" where
  "promote csv_delimiter lines =
     (case fold (parse_line csv_delimiter) lines ([], 0) of
        (csv_rows, max_columns) \<Rightarrow> map (pad_row max_columns) csv_rows)"

text \<open>
  Lines 403 to 511, for an existing input file. \<open>file_ext\<close> and \<open>output_ext\<close> are the
  lower-cased extensions of the two paths, \<open>src_lines\<close> the lines of the decoded input and
  \<open>reader\<close> what iterating \<open>csv.reader\<close> over it does for the delimiter in effect. \<open>csv.writer\<close>
  refuses a delimiter that is not one character with \<open>TypeError\<close>, and so does the test
  \<open>csv_delimiter in line\<close> when the delimiter is \<open>None\<close>. The result \<open>None\<close> is the
  return without writing, for an unsupported extension.
\<close>

definition transform_file ::
  "string \<Rightarrow> string option \<Rightarrow> nat \<Rightarrow> string \<Rightarrow> string \<Rightarrow> delimiter_arg \<Rightarrow>
   string list \<Rightarrow> csv_reader \<Rightarrow> error + written option"
where
  "transform_file input_file source_encoding fsize file_ext output_ext delim_arg src_lines reader =
     (if file_ext \<in> set [''.csv'', ''.tsv''] then
        (let d = (case delim_arg of
                    Auto \<Rightarrow> max_delimiter (str_count (take 4096 (concat src_lines)))
                  | Delim c \<Rightarrow> c)
         in case yielded reader of
              [] \<Rightarrow> (case failure reader of None \<Rightarrow> Inl StopIteration | Some e \<Rightarrow> Inl e)
            | hdrs # rows \<Rightarrow>
                (case failure reader of
                   Some e \<Rightarrow> Inl e
                 | None \<Rightarrow> Inr (Some (CsvFile d (hdrs # rows)))))
      else if file_ext \<in> set [''.txt''] \<or> file_ext = [] then
        (if output_ext \<in> set [''.csv'', ''.tsv''] then
           (case verify_txt input_file fsize source_encoding src_lines of
              Inl e \<Rightarrow> Inl e
            | Inr results \<Rightarrow>
                if potential_csv results then
                  (case potential_delimiter results of
                     None \<Rightarrow> Inl TypeError
                   | Some csv_delimiter \<Rightarrow>
                       (let csv_rows = promote csv_delimiter src_lines
                        in case delim_arg of
                             Auto \<Rightarrow> Inl TypeError
                           | Delim c \<Rightarrow> Inr (Some (CsvFile c csv_rows))))
                else
                  (let lines = map str_strip src_lines
                   in case delim_arg of
                        Auto \<Rightarrow> Inl TypeError
                      | Delim c \<Rightarrow>
                          Inr (Some (CsvFile c
                            ([''Content''] # map (\<lambda>line. [line]) (filter (\<lambda>line. line \<noteq> []) lines))))))
         else Inr (Some (TextFile (concat src_lines))))
      else Inr None)"

section \<open>Descriptions taken from the specification\<close>


text \<open>
  The specification's words for the CSV-likeness test, for lines whose first line holds a
  candidate delimiter: with the header delimiter the one most frequent in the first line
  and the expected count its count there, the following non-empty lines whose count is
  within 2 of the expected one are at least 0.7 times all the following non-empty lines.
\<close>

definition spec_potential_csv :: "string list \<Rightarrow> bool" where
  "spec_potential_csv lines =
     (let header_delimiter = max_delimiter (str_count (lines ! 0));
          expected_count = str_count (lines ! 0) header_delimiter;
          followers = filter (\<lambda>line. str_strip line \<noteq> []) (drop 1 lines);
          matching = filter (\<lambda>line. \<bar>int (str_count line header_delimiter) - int expected_count\<bar> \<le> 2)
                            followers
      in rat_of_nat (length matching) \<ge> (7 / 10) * rat_of_nat (length followers))"

section \<open>Properties of \<open>verify_csv\<close>\<close>

subsection \<open>Auxiliary facts\<close>

lemma single_content_iff: "(length hs = 1 \<and> hs ! 0 = ''Content'') = (hs = [''Content''])"
  by (cases hs) auto

lemma verify_csv_Cons:
  "verify_csv path fsize enc delim (Reader (first # rest) fail) = Inr r \<Longrightarrow>
     headers r = resplit delim first \<and>
     header_count r = length (resplit delim first) \<and>
     row_count r = length rest \<and>
     is_single_column_csv r = (resplit delim first = [''Content'']) \<and>
     consistent_columns r =
       (if resplit delim first = [''Content'']
        then list_all (\<lambda>row. 1 \<le> length row) (map (resplit delim) rest)
        else card (set (map length (map (resplit delim) rest))) = 1) \<and>
     column_data_types r =
       py_dict (zip (resplit delim first)
                    (map (column_type (map (resplit delim) rest)) [0..<length (resplit delim first)]))"
  unfolding verify_csv_def Let_def single_content_iff by (auto split: option.splits)

lemma verify_csv_Cons_ex:
  "\<exists>r. verify_csv path fsize enc delim (Reader (first # rest) None) = Inr r"
  by (simp add: verify_csv_def Let_def)

lemma card_lengths_one:
  "(card (length ` set rows) = 1) =
   (rows \<noteq> [] \<and> (\<forall>a\<in>set rows. \<forall>b\<in>set rows. length a = length b))"
proof
  assume "card (length ` set rows) = 1"
  then obtain n where n: "length ` set rows = {n}" by (auto simp: card_1_singleton_iff)
  then have "rows \<noteq> []" by auto
  moreover have "\<forall>a\<in>set rows. length a = n" using n by auto
  ultimately show "rows \<noteq> [] \<and> (\<forall>a\<in>set rows. \<forall>b\<in>set rows. length a = length b)" by simp
next
  assume a: "rows \<noteq> [] \<and> (\<forall>a\<in>set rows. \<forall>b\<in>set rows. length a = length b)"
  then obtain x where x: "x \<in> set rows" by (cases rows) auto
  have "length ` set rows \<subseteq> {length x}" using a x by blast
  moreover have "length x \<in> length ` set rows" using x by (rule imageI)
  ultimately have "length ` set rows = {length x}" by blast
  then show "card (length ` set rows) = 1" by simp
qed

subsection \<open>Completion\<close>




subsection \<open>Column-count consistency\<close>

text \<open>
  C2, as the code has it. When the header is not the single column \<open>Content\<close>,
  \<open>consistent_columns\<close> holds exactly when the set of the data rows' lengths has one
  member. So it is true for every table with at least one data row whose rows all have
  the same length, and false for every table with two rows of different lengths.
\<close>

theorem consistent_columns_one_length:
  assumes "verify_csv path fsize enc delim (Reader (first # rest) fail) = Inr r"
      and "rows = map (resplit delim) rest"
      and "headers r \<noteq> [''Content'']"
    shows "consistent_columns r = (card (length ` set rows) = 1) \<and>
           (rows \<noteq> [] \<and> (\<forall>a\<in>set rows. \<forall>b\<in>set rows. length a = length b)
              \<longrightarrow> consistent_columns r) \<and>
           ((\<exists>a\<in>set rows. \<exists>b\<in>set rows. length a \<noteq> length b) \<longrightarrow> \<not> consistent_columns r)"
proof -
  from verify_csv_Cons [OF assms(1)]
  have h: "headers r = resplit delim first"
    and c: "consistent_columns r =
       (if resplit delim first = [''Content'']
        then list_all (\<lambda>row. 1 \<le> length row) (map (resplit delim) rest)
        else card (set (map length (map (resplit delim) rest))) = 1)" by blast+
  from h assms(3) have "resplit delim first \<noteq> [''Content'']" by simp
  with c have "consistent_columns r = (card (set (map length rows)) = 1)"
    unfolding assms(2) by simp
  then have "consistent_columns r = (card (length ` set rows) = 1)" by simp
  then show ?thesis unfolding card_lengths_one by blast
qed

text \<open>Two data rows of two cells each under a two-column header: consistent.\<close>

theorem consistent_columns_one_length_witness:
  "\<exists>r. verify_csv ''t.csv'' 12 (Some ''ascii'') CHR '',''
         (Reader [[''a'', ''b''], [''1'', ''2''], [''3'', ''4'']] None) = Inr r \<and>
       headers r \<noteq> [''Content''] \<and> consistent_columns r"
proof -
  obtain r where r: "verify_csv ''t.csv'' 12 (Some ''ascii'') CHR '',''
         (Reader ([''a'', ''b''] # [[''1'', ''2''], [''3'', ''4'']]) None) = Inr r"
    using verify_csv_Cons_ex by blast
  have rows: "[[''1'', ''2''], [''3'', ''4'']] =
              map (resplit CHR '','') [[''1'', ''2''], [''3'', ''4'']]"
    by (simp add: resplit_def)
  have h: "headers r \<noteq> [''Content'']"
    using verify_csv_Cons [OF r] by (simp add: resplit_def)
  from consistent_columns_one_length [OF r rows h] have "consistent_columns r" by simp
  with r h show ?thesis by blast
qed

text \<open>
  C2 as stated fails on a table without data rows: every row of it has the same column
  count, there being none, yet the set of row lengths is empty and the report says
  inconsistent.
\<close>

theorem consistent_columns_header_only:
  "verify_csv ''t.csv'' 4 (Some ''ascii'') CHR '','' (Reader [[''a'', ''b'']] None) =
     Inr \<lparr> file_path = ''t.csv'', file_size_bytes = 4, encoding = Some ''ascii'',
           delimiter = CHR '','', header_count = 2, headers = [''a'', ''b''],
           row_count = 0, consistent_columns = False,
           is_single_column_csv = False, empty_cells = 0,
           column_data_types = [(''a'', ''string''), (''b'', ''string'')] \<rparr>"
  by code_simp

subsection \<open>The single-column special case\<close>

text \<open>
  C3, as the code has it. When the header is the single column \<open>Content\<close>, the report
  flags the special case and \<open>consistent_columns\<close> holds exactly when every data row has
  at least one cell; the lengths of such rows may differ.
\<close>

theorem single_column_consistent_iff:
  assumes "verify_csv path fsize enc delim (Reader (first # rest) fail) = Inr r"
      and "rows = map (resplit delim) rest"
      and "headers r = [''Content'']"
    shows "is_single_column_csv r \<and>
           consistent_columns r = (\<forall>row\<in>set rows. 1 \<le> length row)"
  using verify_csv_Cons [OF assms(1)] assms(2,3) by (simp add: list_all_iff)

text \<open>Rows of one and of three cells under the header \<open>Content\<close>: consistent.\<close>

theorem single_column_consistent_iff_witness:
  "\<exists>r. verify_csv ''t.csv'' 16 (Some ''ascii'') CHR '';''
         (Reader [[''Content''], [''x''], [''p'', ''q'', ''r'']] None) = Inr r \<and>
       headers r = [''Content''] \<and> is_single_column_csv r \<and> consistent_columns r"
proof -
  obtain r where r: "verify_csv ''t.csv'' 16 (Some ''ascii'') CHR '';''
         (Reader ([''Content''] # [[''x''], [''p'', ''q'', ''r'']]) None) = Inr r"
    using verify_csv_Cons_ex by blast
  have rows: "[[''x''], [''p'', ''q'', ''r'']] =
              map (resplit CHR '';'') [[''x''], [''p'', ''q'', ''r'']]"
    by (simp add: resplit_def)
  have h: "headers r = [''Content'']"
    using verify_csv_Cons [OF r] by (simp add: resplit_def)
  from single_column_consistent_iff [OF r rows h]
  have "is_single_column_csv r \<and> consistent_columns r" by simp
  with r h show ?thesis by blast
qed

text \<open>
  C3 as stated fails on a blank line: the reader yields the record \<open>[]\<close> for it, a row
  without a cell, and the report says inconsistent although the header is \<open>Content\<close>.
\<close>

theorem single_column_blank_row:
  "verify_csv ''t.csv'' 11 (Some ''ascii'') CHR '','' (Reader [[''Content''], [''x''], []] None) =
     Inr \<lparr> file_path = ''t.csv'', file_size_bytes = 11, encoding = Some ''ascii'',
           delimiter = CHR '','', header_count = 1, headers = [''Content''],
           row_count = 2, consistent_columns = False,
           is_single_column_csv = True, empty_cells = 0,
           column_data_types = [(''Content'', ''string'')] \<rparr>"
  by code_simp

subsection \<open>Column types\<close>








lemma verify_csv_types:
  assumes "verify_csv path fsize enc delim (Reader (first # rest) fail) = Inr r"
      and "rows = map (resplit delim) rest"
  shows "column_data_types r =
           py_dict (zip (headers r) (map (column_type rows) [0..<length (headers r)]))"
  using verify_csv_Cons [OF assms(1)] assms(2) by simp




subsection \<open>The type tags as a dictionary\<close>

lemma fold_update_map_of:
  "map_of (fold (\<lambda>(k, v). AList.update k v) kvs al) = map_of al ++ map_of (rev kvs)"
proof (induction kvs arbitrary: al)
  case Nil
  show ?case by simp
next
  case (Cons kv kvs)
  obtain k v where kv: "kv = (k, v)" by (cases kv)
  have "map_of (fold (\<lambda>(k, v). AList.update k v) (kv # kvs) al) =
        map_of (AList.update k v al) ++ map_of (rev kvs)"
    using Cons.IH [of "AList.update k v al"] by (simp add: kv)
  also have "\<dots> = (map_of al)(k \<mapsto> v) ++ map_of (rev kvs)"
    by (simp add: update_conv')
  also have "\<dots> = map_of al ++ map_of (rev (kv # kvs))"
    by (rule ext) (simp add: kv map_add_def split: option.splits)
  finally show ?case .
qed

lemma fold_update_keys:
  "fst ` set (fold (\<lambda>(k, v). AList.update k v) kvs al) = fst ` set al \<union> fst ` set kvs"
proof (induction kvs arbitrary: al)
  case Nil
  show ?case by simp
next
  case (Cons kv kvs)
  obtain k v where kv: "kv = (k, v)" by (cases kv)
  show ?case using Cons.IH [of "AList.update k v al"] by (auto simp: kv dom_update)
qed

lemma fold_update_distinct:
  "distinct (map fst al) \<Longrightarrow> distinct (map fst (fold (\<lambda>(k, v). AList.update k v) kvs al))"
proof (induction kvs arbitrary: al)
  case Nil
  then show ?case by simp
next
  case (Cons kv kvs)
  obtain k v where kv: "kv = (k, v)" by (cases kv)
  from Cons.prems have "distinct (map fst (AList.update k v al))" by (rule distinct_update)
  from Cons.IH [OF this] show ?case by (simp add: kv)
qed

lemma py_dict_map_of: "map_of (py_dict kvs) = map_of (rev kvs)"
  by (simp add: py_dict_def fold_update_map_of)

lemma py_dict_keys: "set (map fst (py_dict kvs)) = set (map fst kvs)"
  using fold_update_keys [of kvs "[]"] by (simp add: py_dict_def)

lemma py_dict_distinct: "distinct (map fst (py_dict kvs))"
  using fold_update_distinct [of "[]" kvs] by (simp add: py_dict_def)

lemma py_dict_length: "length (py_dict kvs) = card (set (map fst kvs))"
proof -
  have "length (py_dict kvs) = length (map fst (py_dict kvs))" by simp
  also have "\<dots> = card (set (map fst (py_dict kvs)))"
    using py_dict_distinct [of kvs] by (simp only: distinct_card)
  finally show ?thesis by (simp only: py_dict_keys)
qed

lemma map_of_rev_zip_last:
  "length hs = length ts \<Longrightarrow> i < length hs \<Longrightarrow>
   (\<forall>j. i < j \<and> j < length hs \<longrightarrow> hs ! j \<noteq> hs ! i) \<Longrightarrow>
   map_of (rev (zip hs ts)) (hs ! i) = Some (ts ! i)"
proof (induction hs ts arbitrary: i rule: list_induct2)
  case Nil
  then show ?case by simp
next
  case (Cons h hs t ts)
  show ?case
  proof (cases i)
    case 0
    have "h \<notin> set hs"
    proof
      assume "h \<in> set hs"
      then obtain j where j: "j < length hs" "hs ! j = h" by (auto simp: in_set_conv_nth)
      with Cons.prems(2) [rule_format, of "Suc j"] 0 show False by simp
    qed
    then have "h \<notin> fst ` set (rev (zip hs ts))"
      using Cons.hyps by (auto dest: set_zip_leftD)
    then have "map_of (rev (zip hs ts)) h = None" by (simp add: map_of_eq_None_iff)
    then show ?thesis using 0 by (simp add: map_add_def)
  next
    case (Suc i')
    have "i' < length hs" using Cons.prems(1) Suc by simp
    moreover have "\<forall>j. i' < j \<and> j < length hs \<longrightarrow> hs ! j \<noteq> hs ! i'"
    proof (intro allI impI)
      fix j assume "i' < j \<and> j < length hs"
      with Cons.prems(2) [rule_format, of "Suc j"] Suc show "hs ! j \<noteq> hs ! i'" by simp
    qed
    ultimately have "map_of (rev (zip hs ts)) (hs ! i') = Some (ts ! i')" by (rule Cons.IH)
    then show ?thesis using Suc by (simp add: map_add_def)
  qed
qed


text \<open>
  C9. The report keeps the header as read and its full length, while \<open>column_data_types\<close>
  has one entry per distinct header name, holding the tag computed at the last index that
  bears the name. With a repeated name it has fewer entries than \<open>header_count\<close>.
\<close>

theorem column_data_types_by_name:
  assumes "verify_csv path fsize enc delim (Reader (first # rest) fail) = Inr r"
      and "rows = map (resplit delim) rest"
    shows "headers r = resplit delim first \<and>
           header_count r = length (headers r) \<and>
           distinct (map fst (column_data_types r)) \<and>
           set (map fst (column_data_types r)) = set (headers r) \<and>
           length (column_data_types r) = card (set (headers r)) \<and>
           (\<forall>i<length (headers r).
              (\<forall>j. i < j \<and> j < length (headers r) \<longrightarrow> headers r ! j \<noteq> headers r ! i) \<longrightarrow>
              map_of (column_data_types r) (headers r ! i) = Some (column_type rows i)) \<and>
           (\<not> distinct (headers r) \<longrightarrow> length (column_data_types r) < header_count r)"
proof -
  let ?hs = "headers r"
  let ?ts = "map (column_type rows) [0..<length ?hs]"
  have len: "length ?hs = length ?ts" by simp
  have cdt: "column_data_types r = py_dict (zip ?hs ?ts)"
    by (rule verify_csv_types [OF assms])
  have fst_zip: "map fst (zip ?hs ?ts) = ?hs" using len by (rule map_fst_zip)
  have h: "headers r = resplit delim first" and hc: "header_count r = length (headers r)"
    using verify_csv_Cons [OF assms(1)] by simp_all
  have d: "distinct (map fst (column_data_types r))"
    unfolding cdt by (rule py_dict_distinct)
  have k: "set (map fst (column_data_types r)) = set ?hs"
    unfolding cdt py_dict_keys fst_zip ..
  have l: "length (column_data_types r) = card (set ?hs)"
    unfolding cdt py_dict_length fst_zip ..
  have v: "\<forall>i<length ?hs.
              (\<forall>j. i < j \<and> j < length ?hs \<longrightarrow> ?hs ! j \<noteq> ?hs ! i) \<longrightarrow>
              map_of (column_data_types r) (?hs ! i) = Some (column_type rows i)"
  proof (intro allI impI)
    fix i assume i: "i < length ?hs"
      and last: "\<forall>j. i < j \<and> j < length ?hs \<longrightarrow> ?hs ! j \<noteq> ?hs ! i"
    from map_of_rev_zip_last [OF len i last]
    have "map_of (rev (zip ?hs ?ts)) (?hs ! i) = Some (?ts ! i)" .
    moreover have "?ts ! i = column_type rows i" using i by simp
    ultimately show "map_of (column_data_types r) (?hs ! i) = Some (column_type rows i)"
      unfolding cdt py_dict_map_of by simp
  qed
  have s: "\<not> distinct ?hs \<longrightarrow> length (column_data_types r) < header_count r"
  proof
    assume nd: "\<not> distinct ?hs"
    have "card (set ?hs) \<le> length ?hs" by (rule card_length)
    moreover have "card (set ?hs) \<noteq> length ?hs" using nd card_distinct by blast
    ultimately show "length (column_data_types r) < header_count r"
      unfolding l hc by simp
  qed
  from h hc d k l v s show ?thesis by blast
qed

text \<open>A header that names both of its columns \<open>n\<close>: one entry, the tag of the second column.\<close>

theorem column_data_types_by_name_witness:
  "\<exists>r. verify_csv ''t.csv'' 12 (Some ''ascii'') CHR '',''
         (Reader [[''n'', ''n''], [''x'', ''1''], [''y'', ''2'']] None) = Inr r \<and>
       headers r = [''n'', ''n''] \<and> header_count r = 2 \<and> \<not> distinct (headers r) \<and>
       length (column_data_types r) = 1 \<and>
       map_of (column_data_types r) ''n'' =
         Some (column_type [[''x'', ''1''], [''y'', ''2'']] 1) \<and>
       column_type [[''x'', ''1''], [''y'', ''2'']] 0 = ''string'' \<and>
       column_type [[''x'', ''1''], [''y'', ''2'']] 1 = ''numeric''"
proof -
  obtain r where r: "verify_csv ''t.csv'' 12 (Some ''ascii'') CHR '',''
         (Reader ([''n'', ''n''] # [[''x'', ''1''], [''y'', ''2'']]) None) = Inr r"
    using verify_csv_Cons_ex by blast
  have rows: "[[''x'', ''1''], [''y'', ''2'']] =
              map (resplit CHR '','') [[''x'', ''1''], [''y'', ''2'']]"
    by (simp add: resplit_def)
  note c = column_data_types_by_name [OF r rows]
  from c have h: "headers r = [''n'', ''n'']" by (simp add: resplit_def)
  from c have hc: "header_count r = 2" unfolding h by simp
  from c have l: "length (column_data_types r) = 1" unfolding h by simp
  from c have "\<forall>i<length (headers r).
      (\<forall>j. i < j \<and> j < length (headers r) \<longrightarrow> headers r ! j \<noteq> headers r ! i) \<longrightarrow>
      map_of (column_data_types r) (headers r ! i) =
        Some (column_type [[''x'', ''1''], [''y'', ''2'']] i)" by blast
  moreover have "1 < length (headers r)" unfolding h by simp
  ultimately have "(\<forall>j. 1 < j \<and> j < length (headers r) \<longrightarrow> headers r ! j \<noteq> headers r ! 1) \<longrightarrow>
      map_of (column_data_types r) (headers r ! 1) =
        Some (column_type [[''x'', ''1''], [''y'', ''2'']] 1)"
    by blast
  moreover have "\<forall>j. 1 < j \<and> j < length (headers r) \<longrightarrow> headers r ! j \<noteq> headers r ! 1"
    unfolding h by auto
  ultimately have "map_of (column_data_types r) (headers r ! 1) =
        Some (column_type [[''x'', ''1''], [''y'', ''2'']] 1)" by blast
  then have m: "map_of (column_data_types r) ''n'' =
         Some (column_type [[''x'', ''1''], [''y'', ''2'']] 1)" unfolding h by simp
  have t0: "column_type [[''x'', ''1''], [''y'', ''2'']] 0 = ''string''" by code_simp
  have t1: "column_type [[''x'', ''1''], [''y'', ''2'']] 1 = ''numeric''" by code_simp
  have nd: "\<not> distinct (headers r)" unfolding h by simp
  from r h hc nd l m t0 t1 show ?thesis by auto
qed


section \<open>Properties of \<open>verify_txt\<close>\<close>

subsection \<open>Auxiliary facts\<close>

lemma str_count_pos: "(0 < str_count s d) = (d \<in> set s)"
  by (induction s) (auto simp: str_count_def)

lemma max_key_from_ge:
  "key best \<le> key (max_key_from key best xs) \<and>
   (\<forall>x\<in>set xs. key x \<le> key (max_key_from key best xs))"
proof (induction xs arbitrary: best)
  case Nil
  show ?case by simp
next
  case (Cons x xs)
  let ?b = "if key best < key x then x else best"
  from Cons.IH [of ?b]
  have 1: "key ?b \<le> key (max_key_from key ?b xs)"
    and 2: "\<forall>y\<in>set xs. key y \<le> key (max_key_from key ?b xs)" by blast+
  have "key best \<le> key ?b" "key x \<le> key ?b" by auto
  with 1 have "key best \<le> key (max_key_from key ?b xs)" "key x \<le> key (max_key_from key ?b xs)"
    by linarith+
  with 2 show ?case by simp
qed

lemma max_delimiter_ge:
  "d \<in> set potential_delimiters \<Longrightarrow> counts d \<le> counts (max_delimiter counts)"
  using max_key_from_ge [of counts "hd potential_delimiters" "tl potential_delimiters"]
  by (auto simp: max_delimiter_def potential_delimiters_def)

lemma header_delimiter_occurs:
  assumes "\<exists>d\<in>set potential_delimiters. d \<in> set line"
  shows "0 < str_count line (max_delimiter (str_count line))"
proof -
  from assms obtain d where d: "d \<in> set potential_delimiters" "d \<in> set line" by blast
  then have "0 < str_count line d" by (simp add: str_count_pos)
  with max_delimiter_ge [OF d(1), of "str_count line"] show ?thesis by linarith
qed

lemma csv_detection_none:
  assumes "\<forall>d\<in>set potential_delimiters. d \<notin> set (lines ! 0)"
  shows "csv_detection lines b = (False, b, 0)"
proof -
  have "\<not> list_ex (\<lambda>d. d \<in> set (lines ! 0)) potential_delimiters"
    using assms by (simp add: list_ex_iff)
  then show ?thesis by (simp add: csv_detection_def)
qed

lemma threshold_nat:
  "((7 / 10) * rat_of_nat n \<le> rat_of_nat m) = (7 * n \<le> 10 * m)"
proof -
  have "((7 / 10) * rat_of_nat n \<le> rat_of_nat m) = (rat_of_nat (7 * n) \<le> rat_of_nat (10 * m))"
    by (simp add: field_simps)
  also have "\<dots> = (7 * n \<le> 10 * m)" by (simp only: of_nat_le_iff)
  finally show ?thesis .
qed

lemma csv_detection_header:
  assumes "lines \<noteq> []" and "\<exists>d\<in>set potential_delimiters. d \<in> set (lines ! 0)"
      and "d = max_delimiter (str_count (lines ! 0))"
      and "m = matching_lines lines d (str_count (lines ! 0) d)"
  shows "csv_detection lines b =
           (if 7 * (length lines - 1) \<le> 10 * m
            then (True, d, rat_of_nat m / rat_of_nat (max 1 (length lines - 1)))
            else (False, b, 0))"
proof -
  have ex: "list_ex (\<lambda>d. d \<in> set (lines ! 0)) potential_delimiters"
    using assms(2) by (simp add: list_ex_iff)
  have pos: "0 < str_count (lines ! 0) d"
    unfolding assms(3) by (rule header_delimiter_occurs [OF assms(2)])
  show ?thesis
    unfolding csv_detection_def Let_def threshold_nat assms(3)[symmetric] assms(4)[symmetric]
    using assms(1) ex pos by simp
qed

lemma verify_txt_ex:
  "read_lines fsize all_lines \<noteq> [] \<Longrightarrow> \<exists>r. verify_txt path fsize enc all_lines = Inr r"
  by (simp add: verify_txt_def Let_def split: prod.splits)

lemma verify_txt_detection:
  assumes "verify_txt path fsize enc all_lines = Inr r"
      and "lines = read_lines fsize all_lines"
      and "csv_detection lines
             (max_delimiter (\<lambda>d. sum_list (map (\<lambda>line. str_count line d) lines))) = (p, b, c)"
  shows "lines \<noteq> [] \<and> potential_csv r = p \<and>
         potential_delimiter r = (if p then Some b else None) \<and>
         csv_confidence r = (if p then c else 0)"
  using assms(1) assms(3) unfolding assms(2) verify_txt_def Let_def
  by (auto split: if_splits)

lemma read_lines_head:
  "all_lines \<noteq> [] \<Longrightarrow> read_lines fsize all_lines \<noteq> [] \<and> read_lines fsize all_lines ! 0 = all_lines ! 0"
  by (cases all_lines) (simp_all add: read_lines_def sample_lines_def Let_def)


subsection \<open>The header line decides\<close>

text \<open>
  C7. When the first line of the file holds none of the four candidate delimiters,
  \<open>verify_txt\<close> returns a classification that is not potential-CSV, with no delimiter and
  confidence zero, whatever the later lines are.
\<close>

theorem no_header_delimiter_not_csv:
  assumes "all_lines \<noteq> []"
      and "\<forall>d\<in>set potential_delimiters. d \<notin> set (all_lines ! 0)"
    shows "\<exists>r. verify_txt path fsize enc all_lines = Inr r \<and>
               \<not> potential_csv r \<and> potential_delimiter r = None \<and> csv_confidence r = 0"
proof -
  let ?lines = "read_lines fsize all_lines"
  let ?b = "max_delimiter (\<lambda>d. sum_list (map (\<lambda>line. str_count line d) ?lines))"
  from read_lines_head [OF assms(1)]
  have ne: "?lines \<noteq> []" and hd: "?lines ! 0 = all_lines ! 0" by blast+
  from verify_txt_ex [OF ne] obtain r where r: "verify_txt path fsize enc all_lines = Inr r"
    by blast
  have "csv_detection ?lines ?b = (False, ?b, 0)"
    by (rule csv_detection_none) (simp add: hd assms(2))
  from verify_txt_detection [OF r refl this]
  have "\<not> potential_csv r \<and> potential_delimiter r = None \<and> csv_confidence r = 0" by simp
  with r show ?thesis by blast
qed

text \<open>A first line without delimiter, followed by two lines of comma-separated cells.\<close>

theorem no_header_delimiter_not_csv_witness:
  "\<exists>r. verify_txt ''f.txt'' 18 (Some ''ascii'')
         [''hello\<newline>'', ''a,b,c\<newline>'', ''d,e,f\<newline>''] = Inr r \<and>
       \<not> potential_csv r \<and> potential_delimiter r = None \<and> csv_confidence r = 0"
proof -
  have 1: "[''hello\<newline>'', ''a,b,c\<newline>'', ''d,e,f\<newline>''] \<noteq> []" by simp
  have 2: "\<forall>d\<in>set potential_delimiters.
             d \<notin> set ([''hello\<newline>'', ''a,b,c\<newline>'', ''d,e,f\<newline>''] ! 0)"
    by (simp add: potential_delimiters_def)
  from no_header_delimiter_not_csv [OF 1 2] show ?thesis .
qed

subsection \<open>The threshold of the CSV-likeness test\<close>

text \<open>
  C4, as the code has it. When the first line holds a candidate delimiter, let \<open>d\<close> be the
  candidate most frequent in it and \<open>m\<close> the number of following non-blank lines whose
  count of \<open>d\<close> is within 2 of the first line's. The file is potential-CSV exactly when
  \<open>m\<close> is at least 0.7 times the number of all following lines, blank ones included; the
  confidence is then \<open>m\<close> divided by that number (by 1 when there is no following line)
  and the delimiter reported is \<open>d\<close>.
\<close>

theorem potential_csv_threshold:
  assumes "verify_txt path fsize enc all_lines = Inr r"
      and "lines = read_lines fsize all_lines"
      and "\<exists>d\<in>set potential_delimiters. d \<in> set (lines ! 0)"
      and "d = max_delimiter (str_count (lines ! 0))"
      and "m = matching_lines lines d (str_count (lines ! 0) d)"
    shows "potential_csv r = (7 * (length lines - 1) \<le> 10 * m) \<and>
           (potential_csv r \<longrightarrow>
              csv_confidence r = rat_of_nat m / rat_of_nat (max 1 (length lines - 1)) \<and>
              potential_delimiter r = Some d) \<and>
           (\<not> potential_csv r \<longrightarrow> csv_confidence r = 0 \<and> potential_delimiter r = None)"
proof -
  let ?b = "max_delimiter (\<lambda>d. sum_list (map (\<lambda>line. str_count line d) lines))"
  obtain p b c where det: "csv_detection lines ?b = (p, b, c)" by (cases "csv_detection lines ?b")
  from verify_txt_detection [OF assms(1,2) det]
  have ne: "lines \<noteq> []" and p: "potential_csv r = p"
    and pd: "potential_delimiter r = (if p then Some b else None)"
    and cc: "csv_confidence r = (if p then c else 0)" by blast+
  from csv_detection_header [OF ne assms(3,4,5), of ?b] det
  have "(p, b, c) =
           (if 7 * (length lines - 1) \<le> 10 * m
            then (True, d, rat_of_nat m / rat_of_nat (max 1 (length lines - 1)))
            else (False, ?b, 0))" by simp
  then have "p = (7 * (length lines - 1) \<le> 10 * m)"
    and "p \<longrightarrow> b = d \<and> c = rat_of_nat m / rat_of_nat (max 1 (length lines - 1))"
    by (auto split: if_splits)
  with p pd cc show ?thesis by auto
qed

text \<open>
  A header of two commas, three matching lines and one line without comma, whose count
  0 is still within 2 of the expected one: all four following lines match.
\<close>

theorem potential_csv_threshold_witness:
  "\<exists>r. verify_txt ''f.txt'' 24 (Some ''ascii'')
         [''a,b,c\<newline>'', ''1,2,3\<newline>'', ''plain\<newline>'', ''4,5,6\<newline>'', ''7,8,9\<newline>''] = Inr r \<and>
       potential_csv r \<and> csv_confidence r = 1 \<and> potential_delimiter r = Some CHR '',''"
proof -
  let ?L = "[''a,b,c\<newline>'', ''1,2,3\<newline>'', ''plain\<newline>'', ''4,5,6\<newline>'', ''7,8,9\<newline>'']"
  have rl: "?L = read_lines 24 ?L" by (simp add: read_lines_def large_file_def)
  then have "read_lines 24 ?L \<noteq> []" by simp
  from verify_txt_ex [OF this] obtain r
    where r: "verify_txt ''f.txt'' 24 (Some ''ascii'') ?L = Inr r" by blast
  have ex: "\<exists>d\<in>set potential_delimiters. d \<in> set (?L ! 0)"
    by (simp add: potential_delimiters_def)
  have d: "CHR '','' = max_delimiter (str_count (?L ! 0))" by code_simp
  have m: "4 = matching_lines ?L CHR '','' (str_count (?L ! 0) CHR '','')" by code_simp
  from potential_csv_threshold [OF r rl ex d m]
  have "potential_csv r \<and> csv_confidence r = 1 \<and> potential_delimiter r = Some CHR '',''"
    by simp
  with r show ?thesis by blast
qed


text \<open>
  C4 as stated fails when blank lines follow: here the one following non-empty line
  matches, which is all of the non-empty ones, yet against the three following lines it
  is below the threshold and the file is not classified potential-CSV.
\<close>

theorem blank_lines_count_in_threshold:
  "spec_potential_csv [''a,b\<newline>'', ''c,d\<newline>'', ''\<newline>'', ''\<newline>''] \<and>
   verify_txt ''f.txt'' 10 (Some ''ascii'') [''a,b\<newline>'', ''c,d\<newline>'', ''\<newline>'', ''\<newline>''] =
     Inr \<lparr> file_path = ''f.txt'', file_size_bytes = 10, encoding = Some ''ascii'',
           line_count = 4, empty_lines = 2, avg_line_length = 5 / 2,
           consistent_line_length = True, potential_csv = False,
           potential_delimiter = None, csv_confidence = 0, is_large_file = False \<rparr>"
proof -
  let ?L = "[''a,b\<newline>'', ''c,d\<newline>'', ''\<newline>'', ''\<newline>'']"
  have spec: "spec_potential_csv ?L" by code_simp
  have rl: "read_lines 10 ?L = ?L" by (simp add: read_lines_def large_file_def)
  have det: "csv_detection ?L b = (False, b, 0)" for b by code_simp
  have "verify_txt ''f.txt'' 10 (Some ''ascii'') ?L =
     Inr \<lparr> file_path = ''f.txt'', file_size_bytes = 10, encoding = Some ''ascii'',
           line_count = 4, empty_lines = 2, avg_line_length = 5 / 2,
           consistent_line_length = True, potential_csv = False,
           potential_delimiter = None, csv_confidence = 0, is_large_file = False \<rparr>"
    by (simp add: verify_txt_def Let_def rl det large_file_def str_strip_def isspace_def)
  with spec show ?thesis by (rule conjI)
qed

section \<open>Properties of \<open>transform_file\<close>\<close>

subsection \<open>Auxiliary facts\<close>

lemma pad_row_replicate: "pad_row m row = row @ replicate (m - length row) []"
proof (induction m row rule: pad_row.induct)
  case (1 m row)
  show ?case
  proof (cases "length row < m")
    case True
    then have "pad_row m row = pad_row m (row @ [[]])" by (simp only: pad_row.simps [of m row] if_True)
    also have "\<dots> = (row @ [[]]) @ replicate (m - length (row @ [[]])) []"
      using "1.IH" [OF True] .
    also have "\<dots> = row @ replicate (m - length row) []"
    proof -
      have "m - length row = Suc (m - Suc (length row))" using True by simp
      then show ?thesis by simp
    qed
    finally show ?thesis .
  next
    case False
    then show ?thesis by (simp add: pad_row.simps [of m row])
  qed
qed

lemma parse_line_cells:
  "parse_line d line (csv_rows, m) =
     (csv_rows @ [line_cells d line], max m (length (line_cells d line)))"
  by (simp add: parse_line_def line_cells_def Let_def)

lemma fold_parse_line:
  "fold (parse_line d) lines (csv_rows, m) =
     (csv_rows @ map (line_cells d) lines, fold max (map (\<lambda>line. length (line_cells d line)) lines) m)"
proof (induction lines arbitrary: csv_rows m)
  case Nil
  show ?case by simp
next
  case (Cons line lines)
  show ?case by (simp add: parse_line_cells Cons.IH max.commute)
qed

lemma promote_eq:
  "promote d lines =
     map (\<lambda>row. row @ replicate (Max (set (0 # map length (map (line_cells d) lines))) - length row) [])
         (map (line_cells d) lines)"
proof -
  have "fold max (map (\<lambda>line. length (line_cells d line)) lines) 0 =
        Max (set (0 # map length (map (line_cells d) lines)))"
    by (simp only: Max.set_eq_fold map_map comp_def)
  then show ?thesis
    by (simp add: promote_def fold_parse_line pad_row_replicate del: set_simps)
qed


lemma promote_length: "length (promote d lines) = length lines"
  by (simp add: promote_eq del: set_simps)

lemma Max_with_zero:
  "xs \<noteq> [] \<Longrightarrow> Max (set (0 # xs)) = Max (set (xs :: nat list))"
  by (simp add: max_def)

lemma promote_nth:
  assumes "i < length lines"
  shows "promote d lines ! i =
           line_cells d (lines ! i) @
           replicate (Max (set (map (\<lambda>line. length (line_cells d line)) lines))
                        - length (line_cells d (lines ! i))) []"
proof -
  let ?ws = "map (\<lambda>line. length (line_cells d line)) lines"
  have "?ws \<noteq> []" using assms by auto
  then have M: "Max (set (0 # ?ws)) = Max (set ?ws)" by (rule Max_with_zero)
  have m: "map length (map (line_cells d) lines) = ?ws" by simp
  have "promote d lines ! i =
          line_cells d (lines ! i) @
          replicate (Max (set (0 # ?ws)) - length (line_cells d (lines ! i))) []"
    unfolding promote_eq m using assms by (simp del: set_simps)
  then show ?thesis unfolding M .
qed

lemma cells_le_Max:
  assumes "i < length lines"
  shows "length (line_cells d (lines ! i))
           \<le> Max (set (map (\<lambda>line. length (line_cells d line)) lines))"
proof -
  have "length (line_cells d (lines ! i)) \<in> set (map (\<lambda>line. length (line_cells d line)) lines)"
    using assms by auto
  then show ?thesis by (intro Max_ge) simp_all
qed

lemma csv_detection_True:
  "csv_detection lines b0 = (True, b, c) \<Longrightarrow> b = max_delimiter (str_count (lines ! 0))"
  unfolding csv_detection_def Let_def by (simp split: if_splits)

lemma verify_txt_delimiter:
  assumes "verify_txt path fsize enc all_lines = Inr r" and "potential_csv r"
  shows "potential_delimiter r = Some (max_delimiter (str_count (read_lines fsize all_lines ! 0)))"
proof -
  let ?lines = "read_lines fsize all_lines"
  let ?b = "max_delimiter (\<lambda>d. sum_list (map (\<lambda>line. str_count line d) ?lines))"
  obtain p b c where det: "csv_detection ?lines ?b = (p, b, c)"
    by (cases "csv_detection ?lines ?b")
  from verify_txt_detection [OF assms(1) refl det] assms(2)
  have p: "p" and pd: "potential_delimiter r = Some b" by auto
  from det p have "csv_detection ?lines ?b = (True, b, c)" by simp
  from csv_detection_True [OF this] pd show ?thesis by simp
qed

lemma transform_file_promotes:
  assumes "file_ext = ''.txt'' \<or> file_ext = []"
      and "output_ext = ''.csv'' \<or> output_ext = ''.tsv''"
      and "verify_txt input_file fsize enc src_lines = Inr res"
      and "potential_csv res"
      and "potential_delimiter res = Some d"
  shows "transform_file input_file enc fsize file_ext output_ext (Delim c) src_lines reader =
           Inr (Some (CsvFile c (promote d src_lines)))"
  using assms unfolding transform_file_def Let_def by auto

subsection \<open>Promotion pads and never truncates\<close>

text \<open>
  C8. When a text file classified potential-CSV is promoted, the table written has one
  row per line; every row has the width of the widest row, and it is the cells of its
  line followed by empty cells only, so no cell of a line is dropped.
\<close>

theorem promotion_pads_rows:
  assumes "file_ext = ''.txt'' \<or> file_ext = []"
      and "output_ext = ''.csv'' \<or> output_ext = ''.tsv''"
      and "verify_txt input_file fsize enc src_lines = Inr res"
      and "potential_csv res"
      and "potential_delimiter res = Some d"
      and "i < length src_lines"
      and "width = Max (set (map (\<lambda>line. length (line_cells d line)) src_lines))"
    shows "\<exists>out. transform_file input_file enc fsize file_ext output_ext (Delim c) src_lines reader =
                   Inr (Some (CsvFile c out)) \<and>
                 length out = length src_lines \<and>
                 length (out ! i) = width \<and>
                 length (line_cells d (src_lines ! i)) \<le> width \<and>
                 out ! i = line_cells d (src_lines ! i) @
                           replicate (width - length (line_cells d (src_lines ! i))) []"
proof -
  let ?out = "promote d src_lines"
  have t: "transform_file input_file enc fsize file_ext output_ext (Delim c) src_lines reader =
             Inr (Some (CsvFile c ?out))"
    by (rule transform_file_promotes [OF assms(1-5)])
  have le: "length (line_cells d (src_lines ! i)) \<le> width"
    unfolding assms(7) by (rule cells_le_Max [OF assms(6)])
  have nth: "?out ! i = line_cells d (src_lines ! i) @
                        replicate (width - length (line_cells d (src_lines ! i))) []"
    unfolding assms(7) by (rule promote_nth [OF assms(6)])
  have "length (?out ! i) = width" unfolding nth using le by simp
  with t le nth promote_length [of d src_lines] show ?thesis by blast
qed

text \<open>
  The example of the specification: the lines \<open>a,b,c\<close> and \<open>d,e\<close> give the rows
  \<open>a, b, c\<close> and \<open>d, e\<close> with one empty cell appended.
\<close>

theorem promotion_pads_rows_witness:
  "\<exists>out. transform_file ''f.txt'' (Some ''ascii'') 10 ''.txt'' ''.csv'' (Delim CHR '','')
            [''a,b,c\<newline>'', ''d,e\<newline>''] (Reader [] None) =
           Inr (Some (CsvFile CHR '','' out)) \<and>
         length out = 2 \<and> out ! 0 = [''a'', ''b'', ''c''] \<and> out ! 1 = [''d'', ''e'', []]"
proof -
  let ?L = "[''a,b,c\<newline>'', ''d,e\<newline>'']"
  have rl: "read_lines 10 ?L = ?L" by (simp add: read_lines_def large_file_def)
  then have "read_lines 10 ?L \<noteq> []" by simp
  from verify_txt_ex [OF this] obtain res
    where res: "verify_txt ''f.txt'' 10 (Some ''ascii'') ?L = Inr res" by blast
  have det: "csv_detection ?L b = (True, CHR '','', 1)" for b by code_simp
  from verify_txt_detection [OF res rl [symmetric] det]
  have p: "potential_csv res" and pd: "potential_delimiter res = Some CHR '',''" by simp_all
  have e1: "''.txt'' = ''.txt'' \<or> ''.txt'' = []" and e2: "''.csv'' = ''.csv'' \<or> ''.csv'' = ''.tsv''"
    by simp_all
  have w: "3 = Max (set (map (\<lambda>line. length (line_cells CHR '','' line)) ?L))" by code_simp
  have i0: "0 < length ?L" and i1: "1 < length ?L" by simp_all
  have c0: "line_cells CHR '','' (?L ! 0) = [''a'', ''b'', ''c'']" by code_simp
  have c1: "line_cells CHR '','' (?L ! 1) = [''d'', ''e'']" by code_simp
  from promotion_pads_rows [OF e1 e2 res p pd i0 w, of "CHR '',''" "Reader [] None"] obtain out
    where t: "transform_file ''f.txt'' (Some ''ascii'') 10 ''.txt'' ''.csv'' (Delim CHR '','') ?L (Reader [] None) =
                Inr (Some (CsvFile CHR '','' out))"
      and l: "length out = length ?L"
      and o0: "out ! 0 = line_cells CHR '','' (?L ! 0) @
                 replicate (3 - length (line_cells CHR '','' (?L ! 0))) []" by blast
  from promotion_pads_rows [OF e1 e2 res p pd i1 w, of "CHR '',''" "Reader [] None"] obtain out'
    where t': "transform_file ''f.txt'' (Some ''ascii'') 10 ''.txt'' ''.csv'' (Delim CHR '','') ?L (Reader [] None) =
                Inr (Some (CsvFile CHR '','' out'))"
      and o1: "out' ! 1 = line_cells CHR '','' (?L ! 1) @
                 replicate (3 - length (line_cells CHR '','' (?L ! 1))) []" by blast
  from t t' have "out' = out" by simp
  with o1 have "out ! 1 = [''d'', ''e'', []]" unfolding c1 by (simp add: numeral_3_eq_3)
  moreover from o0 have "out ! 0 = [''a'', ''b'', ''c'']" unfolding c0 by simp
  moreover from l have "length out = 2" by simp
  ultimately show ?thesis using t by blast
qed

subsection \<open>Split on the detected delimiter, written with the requested one\<close>

text \<open>
  C10. When a text file classified potential-CSV is promoted, the lines are split on the
  delimiter the classifier detected, the one most frequent in the first line read, and
  the rows are handed to a writer created with the delimiter the caller asked for,
  whichever it is; so the separator of the output is the requested delimiter also when
  it differs from the one the cells were split on.
\<close>

theorem written_delimiter_is_requested:
  assumes "file_ext = ''.txt'' \<or> file_ext = []"
      and "output_ext = ''.csv'' \<or> output_ext = ''.tsv''"
      and "verify_txt input_file fsize enc src_lines = Inr res"
      and "potential_csv res"
    shows "\<exists>d. potential_delimiter res = Some d \<and>
               d = max_delimiter (str_count (read_lines fsize src_lines ! 0)) \<and>
               transform_file input_file enc fsize file_ext output_ext (Delim c) src_lines reader =
                 Inr (Some (CsvFile c (promote d src_lines)))"
proof -
  let ?d = "max_delimiter (str_count (read_lines fsize src_lines ! 0))"
  have pd: "potential_delimiter res = Some ?d"
    by (rule verify_txt_delimiter [OF assms(3,4)])
  from transform_file_promotes [OF assms pd] pd show ?thesis by blast
qed


text \<open>Lines split on the comma that was detected, written with the semicolon requested.\<close>

theorem written_delimiter_is_requested_witness:
  "\<exists>res. verify_txt ''f.txt'' (8::nat) (Some ''ascii'') [''a,b\<newline>'', ''c,d\<newline>''] = Inr res \<and>
         potential_csv res \<and> potential_delimiter res = Some CHR '','' \<and>
         transform_file ''f.txt'' (Some ''ascii'') 8 ''.txt'' ''.csv'' (Delim CHR '';'')
            [''a,b\<newline>'', ''c,d\<newline>''] (Reader [] None) =
           Inr (Some (CsvFile CHR '';'' [[''a'', ''b''], [''c'', ''d'']]))"
proof -
  let ?L = "[''a,b\<newline>'', ''c,d\<newline>'']"
  have rl: "read_lines 8 ?L = ?L" by (simp add: read_lines_def large_file_def)
  then have "read_lines 8 ?L \<noteq> []" by simp
  from verify_txt_ex [OF this] obtain res
    where res: "verify_txt ''f.txt'' 8 (Some ''ascii'') ?L = Inr res" by blast
  have det: "csv_detection ?L b = (True, CHR '','', 1)" for b by code_simp
  from verify_txt_detection [OF res rl [symmetric] det]
  have p: "potential_csv res" by simp
  have e1: "''.txt'' = ''.txt'' \<or> ''.txt'' = []" and e2: "''.csv'' = ''.csv'' \<or> ''.csv'' = ''.tsv''"
    by simp_all
  have d: "max_delimiter (str_count ''a,b\<newline>'') = CHR '',''" by code_simp
  have pr: "promote CHR '','' ?L = [[''a'', ''b''], [''c'', ''d'']]" by code_simp
  from written_delimiter_is_requested [OF e1 e2 res p, of "CHR '';''" "Reader [] None"]
  have "potential_delimiter res = Some CHR '','' \<and>
        transform_file ''f.txt'' (Some ''ascii'') 8 ''.txt'' ''.csv'' (Delim CHR '';'') ?L (Reader [] None) =
          Inr (Some (CsvFile CHR '';'' [[''a'', ''b''], [''c'', ''d'']]))"
    by (simp add: rl d pr)
  with res p show ?thesis by blast
qed


end
